theory Spec2Isabelle
  imports Complex_Main
begin

section \<open>The spectrum analyzer of Easy Effects (spectrum.cpp)\<close>

text \<open>
  The analyzer keeps the latest \<open>n_bands\<close> mono samples, multiplies them with a Hann
  table and, on an idle callback, runs a real-to-complex transform and emits the
  power of every bin.

  Samples are C++ \<open>float\<close>, the emitted powers are \<open>double\<close>. Their arithmetic is
  not fixed here: the sample type \<open>'a\<close>, the power type \<open>'d\<close> and every operation the
  source applies to them are parameters, collected in the record \<open>arith\<close>. Every
  theorem below holds for all of them, in particular for IEEE binary32 with its
  rounding. The transform of the FFTW library is a parameter as well.
\<close>

record ('a, 'd) arith =
  f_zero :: 'a
  f_half :: 'a
  f_one :: 'a
  f_two :: 'a
  f_pi :: 'a
  f_add :: "'a \<Rightarrow> 'a \<Rightarrow> 'a"
  f_sub :: "'a \<Rightarrow> 'a \<Rightarrow> 'a"
  f_mul :: "'a \<Rightarrow> 'a \<Rightarrow> 'a"
  f_div :: "'a \<Rightarrow> 'a \<Rightarrow> 'a"
  f_cos :: "'a \<Rightarrow> 'a"
  f_of_size :: "nat \<Rightarrow> 'a"
  f_to_double :: "'a \<Rightarrow> 'd"
  r2c_bin :: "'a list \<Rightarrow> nat \<Rightarrow> 'a \<times> 'a"

text \<open>
  \<open>r2c_bin ops xs i\<close> is bin \<open>i\<close> (real part, imaginary part) of what
  \<open>fftwf_execute\<close> writes for the real input \<open>xs\<close>.
\<close>

subsection \<open>Errors and build modes\<close>

text \<open>
  \<open>assert\<close> aborts in a debug build and is compiled out under \<open>NDEBUG\<close>. An index
  past the end of a \<open>std::vector\<close> or a \<open>std::span\<close>, and the use of a freed FFTW
  resource, are undefined behaviour in C++: the model stops there with an error.
  \<open>WouldBlock\<close> is the attempt to lock the data mutex while it is held.
\<close>

datatype error = AssertionFailed | OutOfBounds | UseAfterFree | WouldBlock

datatype build = Debug | Release

subsection \<open>\<open>size_t\<close> arithmetic\<close>

text \<open>
  Indices and loop bounds of \<open>process\<close> are \<open>size_t\<close> (64 bits on the platforms the
  program is built for): sums, differences and products wrap modulo \<open>2 ^ 64\<close>.
\<close>

definition size_range :: nat where
  "size_range = 2 ^ 64"

definition size_add :: "nat \<Rightarrow> nat \<Rightarrow> nat" where
  "size_add a b = (a + b) mod size_range"

definition size_sub :: "nat \<Rightarrow> nat \<Rightarrow> nat" where
  "size_sub a b = (a + size_range - b mod size_range) mod size_range"

definition size_mul :: "nat \<Rightarrow> nat \<Rightarrow> nat" where
  "size_mul a b = (a * b) mod size_range"

subsection \<open>The analyzer's state\<close>

text \<open>
  The members of \<open>Spectrum\<close> and the members of \<open>PluginBase\<close> that spectrum.cpp reads
  (\<open>bypass\<close>, \<open>send_notifications\<close>, \<open>rate\<close>). \<open>complex_output\<close> is \<open>None\<close> once
  \<open>fftwf_free\<close> has released it, \<open>plan\<close> is \<open>False\<close> once \<open>fftwf_destroy_plan\<close> has
  run. Two fields record the effects on the environment: \<open>idle_queue\<close> counts the
  closures handed to \<open>util::idle_add\<close> that have not run yet (each captures only
  \<open>this\<close>, so they are all the same closure), and \<open>power_log\<close> lists the arguments
  of every \<open>power.emit\<close>, oldest first.
\<close>

record ('a, 'd) spectrum =
  in_mono :: "'a list"
  real_input :: "'a list"
  hann_window :: "'a list"
  output_vec :: "'d list"
  complex_output :: "('a \<times> 'a) list option"
  plan :: bool
  fftw_ready :: bool
  bypass :: bool
  send_notifications :: bool
  rate :: nat
  data_mutex :: bool
  idle_queue :: nat
  power_log :: "(nat \<times> nat \<times> 'd list) list"

subsection \<open>The data mutex\<close>

definition acquire :: "('a, 'd) spectrum \<Rightarrow> error + ('a, 'd) spectrum" where
  "acquire st = (if data_mutex st then Inl WouldBlock else Inr (st\<lparr>data_mutex := True\<rparr>))"

definition release :: "('a, 'd) spectrum \<Rightarrow> ('a, 'd) spectrum" where
  "release st = st\<lparr>data_mutex := False\<rparr>"

subsection \<open>Construction\<close>

text \<open>
  The constant \<open>n_bands\<close> is declared in spectrum.hpp, which is not among the
  sources. It is the parameter \<open>nb\<close> of every function here, so that the theorems
  hold for every value of it.
\<close>

text \<open>
  Modelled from the spec: the value of \<open>n_bands\<close> (spectrum.hpp), \<open>N = 8192\<close>; the
  comment in \<open>setup\<close> gives the same number. It is used for the concrete analyzer
  \<open>st8192\<close> only.
\<close>

definition n_bands_hardcoded :: nat where
  "n_bands_hardcoded = 8192"

definition hann :: "('a, 'd) arith \<Rightarrow> nat \<Rightarrow> nat \<Rightarrow> 'a" where
  "hann ops nb n =
     f_mul ops (f_half ops)
       (f_sub ops (f_one ops)
          (f_cos ops
             (f_div ops
                (f_mul ops (f_mul ops (f_two ops) (f_pi ops)) (f_of_size ops n))
                (f_of_size ops (nb - 1)))))"

definition Spectrum_new ::
  "('a, 'd) arith \<Rightarrow> nat \<Rightarrow> 'd \<Rightarrow> ('a \<times> 'a) list \<Rightarrow> bool \<Rightarrow> bool \<Rightarrow> nat \<Rightarrow> ('a, 'd) spectrum" where
  "Spectrum_new ops nb d0 raw base_bypass base_notify base_rate =
     \<lparr> in_mono = replicate nb (f_zero ops),
       real_input = replicate nb (f_zero ops),
       hann_window = map (hann ops nb) [0 ..< nb],
       output_vec = replicate (nb div 2 + 1) d0,
       complex_output = Some raw,
       plan = True,
       fftw_ready = True,
       bypass = base_bypass,
       send_notifications = base_notify,
       rate = base_rate,
       data_mutex = False,
       idle_queue = 0,
       power_log = [] \<rparr>"

text \<open>
  \<open>raw\<close> is the content of the \<open>n_bands\<close> complex numbers that \<open>fftwf_alloc_complex\<close>
  returns, and the last three arguments are what the constructor of \<open>PluginBase\<close>
  leaves in its members.
\<close>

subsection \<open>The callback of the settings key \<open>show\<close>\<close>

text \<open>
  \<open>g_settings_get_boolean\<close> returns a \<open>gboolean\<close>, an \<open>int\<close> that is 1 for true and 0
  for false. The handler is connected to \<open>changed::show\<close>, so GLib calls it only for
  that key.
\<close>

type_synonym gsettings = "string \<Rightarrow> bool"

definition g_settings_get_boolean :: "gsettings \<Rightarrow> string \<Rightarrow> int" where
  "g_settings_get_boolean settings key = (if settings key then 1 else 0)"

definition show_changed_body ::
  "gsettings \<Rightarrow> string \<Rightarrow> ('a, 'd) spectrum \<Rightarrow> ('a, 'd) spectrum" where
  "show_changed_body settings key st = st\<lparr>bypass := (g_settings_get_boolean settings key = 0)\<rparr>"

definition on_show_changed ::
  "gsettings \<Rightarrow> string \<Rightarrow> ('a, 'd) spectrum \<Rightarrow> error + ('a, 'd) spectrum" where
  "on_show_changed settings key st =
     (case acquire st of
        Inl e \<Rightarrow> Inl e
      | Inr s \<Rightarrow> Inr (release (show_changed_body settings key s)))"

definition settings_changed ::
  "gsettings \<Rightarrow> string \<Rightarrow> ('a, 'd) spectrum \<Rightarrow> error + ('a, 'd) spectrum" where
  "settings_changed settings key st =
     (if key = ''show'' then on_show_changed settings key st else Inr st)"

subsection \<open>Destruction and setup\<close>

text \<open>
  The destructor first disconnects from PipeWire (not modelled: it touches no member
  read here), then, under the mutex, clears \<open>fftw_ready\<close>, frees \<open>complex_output\<close>
  unless it is null, and destroys the plan. The pointer is left dangling; in the
  model the freed buffer is \<open>None\<close>. Destroying a plan twice is a use after free.
\<close>

definition destroy :: "('a, 'd) spectrum \<Rightarrow> error + ('a, 'd) spectrum" where
  "destroy st =
     (case acquire st of
        Inl e \<Rightarrow> Inl e
      | Inr s \<Rightarrow>
          if plan s then
            Inr (release (s\<lparr>fftw_ready := False, complex_output := None, plan := False\<rparr>))
          else Inl UseAfterFree)"

definition setup_analyzer :: "build \<Rightarrow> ('a, 'd) arith \<Rightarrow> nat \<Rightarrow> ('a, 'd) spectrum \<Rightarrow> error + ('a, 'd) spectrum" where
  "setup_analyzer b ops nb st =
     (if b = Debug \<and> \<not> (length (in_mono st) = nb \<and> length (real_input st) = nb)
      then Inl AssertionFailed
      else Inr (st\<lparr>in_mono := replicate (length (in_mono st)) (f_zero ops),
                  real_input := replicate (length (real_input st)) (f_zero ops)\<rparr>))"

subsection \<open>\<open>process\<close>\<close>

text \<open>
  \<open>std::copy\<close> writes the elements of the source span over the first elements of the
  destination span; a destination that is shorter is overrun.
\<close>

definition copy_span :: "'a list \<Rightarrow> 'a list \<Rightarrow> error + 'a list" where
  "copy_span src dst =
     (if length src \<le> length dst then Inr (src @ drop (length src) dst) else Inl OutOfBounds)"

text \<open>The loop that moves the content of \<open>in_mono\<close> down by \<open>k\<close> places.\<close>

function shift_loop :: "nat \<Rightarrow> nat \<Rightarrow> nat \<Rightarrow> 'a list \<Rightarrow> error + 'a list" where
  "shift_loop bound k n buf =
     (if n < bound then
        (if size_add k n < length buf \<and> n < length buf
         then shift_loop bound k (Suc n) (buf[n := buf ! size_add k n])
         else Inl OutOfBounds)
      else Inr buf)"
  by pat_completeness auto
termination
  by (relation "measure (\<lambda>(bound, k, n, buf). bound - n)") auto

declare shift_loop.simps [simp del]

text \<open>The loop that writes the new down-mixed samples at the end of \<open>in_mono\<close>.\<close>

function downmix_loop ::
  "('a, 'd) arith \<Rightarrow> nat \<Rightarrow> nat \<Rightarrow> nat \<Rightarrow> 'a list \<Rightarrow> 'a list \<Rightarrow> 'a list \<Rightarrow> error + 'a list" where
  "downmix_loop ops nb k n left_in right_in buf =
     (if n < k then
        (if n < length left_in \<and> n < length right_in
            \<and> size_add (size_sub nb k) n < length buf
         then downmix_loop ops nb k (Suc n) left_in right_in
                (buf[size_add (size_sub nb k) n :=
                        f_mul ops (f_half ops) (f_add ops (left_in ! n) (right_in ! n))])
         else Inl OutOfBounds)
      else Inr buf)"
  by pat_completeness auto
termination
  by (relation "measure (\<lambda>(ops, nb, k, n, left_in, right_in, buf). k - n)") auto

declare downmix_loop.simps [simp del]

text \<open>The loop that multiplies \<open>in_mono\<close> with the Hann table into \<open>real_input\<close>.\<close>

function window_loop ::
  "('a, 'd) arith \<Rightarrow> nat \<Rightarrow> nat \<Rightarrow> 'a list \<Rightarrow> 'a list \<Rightarrow> 'a list \<Rightarrow> error + 'a list" where
  "window_loop ops nb n buf win rin =
     (if n < nb then
        (if n < length rin \<and> n < length buf \<and> n < length win
         then window_loop ops nb (Suc n) buf win (rin[n := f_mul ops (buf ! n) (win ! n)])
         else Inl OutOfBounds)
      else Inr rin)"
  by pat_completeness auto
termination
  by (relation "measure (\<lambda>(ops, nb, n, buf, win, rin). nb - n)") auto

declare window_loop.simps [simp del]

text \<open>
  The body of \<open>process\<close> under the lock. It returns the new state and the content of
  the two output spans.
\<close>

definition asserts_hold :: "nat \<Rightarrow> ('a, 'd) spectrum \<Rightarrow> 'a list \<Rightarrow> 'a list \<Rightarrow> bool" where
  "asserts_hold nb st left_in right_in =
     (length left_in = length right_in \<and> length left_in \<le> nb
      \<and> length (in_mono st) = nb \<and> length (real_input st) = nb)"

definition process_body ::
  "build \<Rightarrow> ('a, 'd) arith \<Rightarrow> nat \<Rightarrow> ('a, 'd) spectrum \<Rightarrow>
   'a list \<Rightarrow> 'a list \<Rightarrow> 'a list \<Rightarrow> 'a list \<Rightarrow>
   error + (('a, 'd) spectrum \<times> 'a list \<times> 'a list)" where
  "process_body b ops nb st left_in right_in left_out right_out =
     (case copy_span left_in left_out of
        Inl e \<Rightarrow> Inl e
      | Inr lo \<Rightarrow>
     (case copy_span right_in right_out of
        Inl e \<Rightarrow> Inl e
      | Inr ro \<Rightarrow>
     if bypass st \<or> \<not> fftw_ready st then Inr (st, lo, ro)
     else if b = Debug \<and> \<not> asserts_hold nb st left_in right_in then Inl AssertionFailed
     else
     (case shift_loop (size_sub nb (length left_in)) (length left_in) 0 (in_mono st) of
        Inl e \<Rightarrow> Inl e
      | Inr m1 \<Rightarrow>
     (case downmix_loop ops nb (length left_in) 0 left_in right_in m1 of
        Inl e \<Rightarrow> Inl e
      | Inr m2 \<Rightarrow>
     (case window_loop ops nb 0 m2 (hann_window st) (real_input st) of
        Inl e \<Rightarrow> Inl e
      | Inr rin \<Rightarrow>
     Inr ((if send_notifications st
           then st\<lparr>in_mono := m2, real_input := rin, idle_queue := Suc (idle_queue st)\<rparr>
           else st\<lparr>in_mono := m2, real_input := rin\<rparr>), lo, ro))))))"

definition process ::
  "build \<Rightarrow> ('a, 'd) arith \<Rightarrow> nat \<Rightarrow> ('a, 'd) spectrum \<Rightarrow>
   'a list \<Rightarrow> 'a list \<Rightarrow> 'a list \<Rightarrow> 'a list \<Rightarrow>
   error + (('a, 'd) spectrum \<times> 'a list \<times> 'a list)" where
  "process b ops nb st left_in right_in left_out right_out =
     (case acquire st of
        Inl e \<Rightarrow> Inl e
      | Inr s \<Rightarrow>
     (case process_body b ops nb s left_in right_in left_out right_out of
        Inl e \<Rightarrow> Inl e
      | Inr (s', lo, ro) \<Rightarrow> Inr (release s', lo, ro)))"

subsection \<open>The closure run on idle\<close>

text \<open>
  \<open>fftwf_execute\<close> reads \<open>real_input\<close> and writes the first \<open>n / 2 + 1\<close> complex numbers
  of \<open>complex_output\<close>, \<open>n\<close> being the length the plan was made for.
\<close>

definition fftwf_execute ::
  "('a, 'd) arith \<Rightarrow> nat \<Rightarrow> ('a, 'd) spectrum \<Rightarrow> error + ('a, 'd) spectrum" where
  "fftwf_execute ops nb st =
     (case complex_output st of
        None \<Rightarrow> Inl UseAfterFree
      | Some co \<Rightarrow>
          if \<not> plan st then Inl UseAfterFree
          else if length co < nb div 2 + 1 \<or> length (real_input st) < nb then Inl OutOfBounds
          else Inr (st\<lparr>complex_output :=
                         Some (map (r2c_bin ops (take nb (real_input st))) [0 ..< nb div 2 + 1]
                               @ drop (nb div 2 + 1) co)\<rparr>))"

function power_loop ::
  "('a, 'd) arith \<Rightarrow> nat \<Rightarrow> ('a \<times> 'a) list \<Rightarrow> 'd list \<Rightarrow> error + 'd list" where
  "power_loop ops i co out =
     (if i < length out then
        (if i < length co
         then power_loop ops (Suc i) co
                (out[i := f_to_double ops
                            (f_div ops
                               (f_add ops (f_mul ops (fst (co ! i)) (fst (co ! i)))
                                          (f_mul ops (snd (co ! i)) (snd (co ! i))))
                               (f_of_size ops (size_mul (length out) (length out))))])
         else Inl OutOfBounds)
      else Inr out)"
  by pat_completeness auto
termination
  by (relation "measure (\<lambda>(ops, i, co, out). length out - i)") auto

declare power_loop.simps [simp del]

definition idle_task ::
  "('a, 'd) arith \<Rightarrow> nat \<Rightarrow> ('a, 'd) spectrum \<Rightarrow> error + ('a, 'd) spectrum" where
  "idle_task ops nb st =
     (if bypass st then Inr st
      else
        (case fftwf_execute ops nb st of
           Inl e \<Rightarrow> Inl e
         | Inr s \<Rightarrow>
        (case complex_output s of
           None \<Rightarrow> Inl UseAfterFree
         | Some co \<Rightarrow>
        (case power_loop ops 0 co (output_vec s) of
           Inl e \<Rightarrow> Inl e
         | Inr out \<Rightarrow>
             Inr (s\<lparr>output_vec := out,
                    power_log := power_log s @ [(rate s, length out, out)]\<rparr>)))))"

text \<open>The main loop takes the oldest pending closure off the queue and runs it.\<close>

definition run_idle ::
  "('a, 'd) arith \<Rightarrow> nat \<Rightarrow> ('a, 'd) spectrum \<Rightarrow> error + ('a, 'd) spectrum" where
  "run_idle ops nb st =
     (if idle_queue st = 0 then Inr st
      else idle_task ops nb (st\<lparr>idle_queue := idle_queue st - 1\<rparr>))"

subsection \<open>Sequences of operations\<close>

text \<open>
  What can happen to an analyzer, one operation at a time: a \<open>process\<close> call from the
  audio thread, the main loop running a pending closure, a change of the key \<open>show\<close>
  to a new value, and the destructor. The operations that take the mutex are atomic
  with respect to each other, so a run of the program is a sequence of them; it stops
  at the first error.
\<close>

datatype 'a event =
    Process "'a list" "'a list" "'a list" "'a list"
  | Idle
  | ShowChanged bool
  | Destroy

fun run_event ::
  "build \<Rightarrow> ('a, 'd) arith \<Rightarrow> nat \<Rightarrow> 'a event \<Rightarrow> ('a, 'd) spectrum \<Rightarrow> error + ('a, 'd) spectrum" where
  "run_event b ops nb (Process left_in right_in left_out right_out) st =
     (case process b ops nb st left_in right_in left_out right_out of
        Inl e \<Rightarrow> Inl e
      | Inr (s, lo, ro) \<Rightarrow> Inr s)"
| "run_event b ops nb Idle st = run_idle ops nb st"
| "run_event b ops nb (ShowChanged v) st = settings_changed (\<lambda>key. v) ''show'' st"
| "run_event b ops nb Destroy st = destroy st"

fun run_events ::
  "build \<Rightarrow> ('a, 'd) arith \<Rightarrow> nat \<Rightarrow> 'a event list \<Rightarrow> ('a, 'd) spectrum \<Rightarrow> error + ('a, 'd) spectrum" where
  "run_events b ops nb [] st = Inr st"
| "run_events b ops nb (e # es) st =
     (case run_event b ops nb e st of
        Inl err \<Rightarrow> Inl err
      | Inr s \<Rightarrow> run_events b ops nb es s)"

fun is_process_or_idle :: "'a event \<Rightarrow> bool" where
  "is_process_or_idle (Process left_in right_in left_out right_out) = True"
| "is_process_or_idle Idle = True"
| "is_process_or_idle (ShowChanged v) = False"
| "is_process_or_idle Destroy = False"

text \<open>
  A \<open>process\<close> call whose output spans are at least as long as its input spans, or
  an idle step.
\<close>

fun fitting_process_or_idle :: "'a event \<Rightarrow> bool" where
  "fitting_process_or_idle (Process left_in right_in left_out right_out) =
     (length left_in \<le> length left_out \<and> length right_in \<le> length right_out)"
| "fitting_process_or_idle Idle = True"
| "fitting_process_or_idle (ShowChanged v) = False"
| "fitting_process_or_idle Destroy = False"

subsection \<open>A live analyzer\<close>

text \<open>
  What the constructor establishes and every operation but the destructor keeps:
  the buffers have their lengths, the FFTW resources exist and \<open>fftw_ready\<close> is set.
  \<open>n_bands\<close> is an \<open>unsigned int\<close>, so it is below the range of \<open>size_t\<close>.
\<close>

definition live :: "nat \<Rightarrow> ('a, 'd) spectrum \<Rightarrow> bool" where
  "live nb st =
     (nb < size_range \<and> length (in_mono st) = nb \<and> length (real_input st) = nb
      \<and> length (hann_window st) = nb \<and> length (output_vec st) = nb div 2 + 1
      \<and> (case complex_output st of None \<Rightarrow> False | Some co \<Rightarrow> length co = nb)
      \<and> plan st \<and> fftw_ready st \<and> \<not> data_mutex st)"

subsection \<open>Concrete data for the examples\<close>

text \<open>
  An instance of the arithmetic: exact real numbers, and a transform whose bin \<open>i\<close>
  is (sum of the input, \<open>i\<close>); the examples only need some fixed transform.
\<close>

definition exact_arith :: "(real, real) arith" where
  "exact_arith =
     \<lparr> f_zero = 0, f_half = 1 / 2, f_one = 1, f_two = 2, f_pi = pi,
       f_add = (+), f_sub = (-), f_mul = (*), f_div = (/), f_cos = cos,
       f_of_size = real, f_to_double = (\<lambda>x. x),
       r2c_bin = (\<lambda>xs i. (sum_list xs, real i)) \<rparr>"

text \<open>An analyzer with four bands, in the middle of its life.\<close>

definition st4 :: "(real, real) spectrum" where
  "st4 =
     \<lparr> in_mono = [1, 2, 3, 4], real_input = [0, 0, 0, 0],
       hann_window = [0, 3 / 4, 3 / 4, 0], output_vec = [0, 0, 0],
       complex_output = Some [(0, 0), (0, 0), (0, 0), (0, 0)],
       plan = True, fftw_ready = True, bypass = False, send_notifications = True,
       rate = 48000, data_mutex = False, idle_queue = 0, power_log = [] \<rparr>"

text \<open>A freshly constructed analyzer with the 8192 bands of the program.\<close>

definition st8192 :: "(real, real) spectrum" where
  "st8192 =
     Spectrum_new exact_arith n_bands_hardcoded 0 (replicate n_bands_hardcoded (0, 0))
       False True 48000"

section \<open>Lemmas about the arithmetic and the loops\<close>

subsection \<open>\<open>size_t\<close> arithmetic without wrap-around\<close>

lemma size_range_pos: "0 < size_range"
  by (simp add: size_range_def)

lemma size_add_small: "a + b < size_range \<Longrightarrow> size_add a b = a + b"
  by (simp add: size_add_def)

lemma size_sub_le: 
  assumes "k \<le> nb" "nb < size_range" shows "size_sub nb k = nb - k"
proof -
  from assms have k: "k mod size_range = k" by simp
  from assms have e: "nb + size_range - k = (nb - k) + size_range" by simp
  from assms have l: "nb - k < size_range" by simp
  have "(nb - k + size_range) mod size_range = nb - k"
    using l by (simp only: mod_add_self2 mod_less)
  then show ?thesis unfolding size_sub_def k e .
qed

lemma size_sub_gt:
  assumes "nb < k" "k < size_range" shows "size_sub nb k = nb + size_range - k" and "0 < size_sub nb k"
proof -
  from assms have k: "k mod size_range = k" by simp
  from assms have "nb + size_range - k < size_range" by simp
  then show "size_sub nb k = nb + size_range - k" unfolding size_sub_def k by simp
  with assms show "0 < size_sub nb k" by simp
qed

subsection \<open>What the loops of \<open>process\<close> compute\<close>

text \<open>
  Each loop is described by the content of its buffer at every index, given that no
  index leaves the buffers. The loops run in place, so the induction follows the
  recursion and carries the buffer as it is after \<open>n\<close> iterations.
\<close>

lemma shift_loop_ok:
  assumes "k + bound \<le> length buf" "length buf < size_range" "n \<le> bound"
  shows "\<exists>r. shift_loop bound k n buf = Inr r \<and> length r = length buf \<and>
           (\<forall>j < length buf. r ! j = (if n \<le> j \<and> j < bound then buf ! (k + j) else buf ! j))"
  using assms
proof (induction bound k n buf rule: shift_loop.induct)
  case (1 bound k n buf)
  show ?case
  proof (cases "n < bound")
    case False
    then show ?thesis by (subst shift_loop.simps) auto
  next
    case True
    with "1.prems" have kn: "size_add k n = k + n" "k + n < length buf" "n < length buf"
      by (simp_all add: size_add_small)
    let ?b = "buf[n := buf ! size_add k n]"
    from "1.prems" True kn
    have "\<exists>r. shift_loop bound k (Suc n) ?b = Inr r \<and> length r = length ?b \<and>
           (\<forall>j < length ?b. r ! j = (if Suc n \<le> j \<and> j < bound then ?b ! (k + j) else ?b ! j))"
      by (intro "1.IH") simp_all
    then obtain r where r: "shift_loop bound k (Suc n) ?b = Inr r" "length r = length buf"
      "\<forall>j < length buf. r ! j = (if Suc n \<le> j \<and> j < bound then ?b ! (k + j) else ?b ! j)"
      by auto
    have eq: "shift_loop bound k n buf = Inr r"
      using True kn r(1) by (subst shift_loop.simps) simp
    have "\<forall>j < length buf. r ! j = (if n \<le> j \<and> j < bound then buf ! (k + j) else buf ! j)"
    proof (intro allI impI)
      fix j assume j: "j < length buf"
      show "r ! j = (if n \<le> j \<and> j < bound then buf ! (k + j) else buf ! j)"
        using r(3) j kn True by (auto simp: nth_list_update)
    qed
    with eq r(2) show ?thesis by blast
  qed
qed


lemma downmix_loop_ok:
  assumes "size_sub nb k = base" "base + k \<le> length buf" "length buf < size_range"
    "k \<le> length left_in" "k \<le> length right_in" "n \<le> k"
  shows "\<exists>r. downmix_loop ops nb k n left_in right_in buf = Inr r \<and> length r = length buf \<and>
           (\<forall>j < length buf. r ! j =
              (if base + n \<le> j \<and> j < base + k
               then f_mul ops (f_half ops) (f_add ops (left_in ! (j - base)) (right_in ! (j - base)))
               else buf ! j))"
  using assms
proof (induction ops nb k n left_in right_in buf rule: downmix_loop.induct)
  case (1 ops nb k n left_in right_in buf)
  show ?case
  proof (cases "n < k")
    case False
    then show ?thesis by (subst downmix_loop.simps) auto
  next
    case True
    with "1.prems" have idx: "size_add (size_sub nb k) n = base + n" "base + n < length buf"
      "n < length left_in" "n < length right_in"
      by (simp_all add: size_add_small)
    let ?v = "f_mul ops (f_half ops) (f_add ops (left_in ! n) (right_in ! n))"
    let ?b = "buf[base + n := ?v]"
    from "1.prems" True idx
    have "\<exists>r. downmix_loop ops nb k (Suc n) left_in right_in
                 (buf[size_add (size_sub nb k) n := ?v]) = Inr r \<and>
               length r = length (buf[size_add (size_sub nb k) n := ?v]) \<and>
           (\<forall>j < length (buf[size_add (size_sub nb k) n := ?v]). r ! j =
              (if base + Suc n \<le> j \<and> j < base + k
               then f_mul ops (f_half ops) (f_add ops (left_in ! (j - base)) (right_in ! (j - base)))
               else (buf[size_add (size_sub nb k) n := ?v]) ! j))"
      by (intro "1.IH") simp_all
    then obtain r where r: "downmix_loop ops nb k (Suc n) left_in right_in ?b = Inr r"
      "length r = length buf"
      "\<forall>j < length buf. r ! j =
              (if base + Suc n \<le> j \<and> j < base + k
               then f_mul ops (f_half ops) (f_add ops (left_in ! (j - base)) (right_in ! (j - base)))
               else ?b ! j)"
      unfolding idx(1) by auto
    have eq: "downmix_loop ops nb k n left_in right_in buf = Inr r"
      using True idx r(1) by (subst downmix_loop.simps) simp
    have "\<forall>j < length buf. r ! j =
              (if base + n \<le> j \<and> j < base + k
               then f_mul ops (f_half ops) (f_add ops (left_in ! (j - base)) (right_in ! (j - base)))
               else buf ! j)"
    proof (intro allI impI)
      fix j assume j: "j < length buf"
      show "r ! j =
              (if base + n \<le> j \<and> j < base + k
               then f_mul ops (f_half ops) (f_add ops (left_in ! (j - base)) (right_in ! (j - base)))
               else buf ! j)"
      proof (cases "j = base + n")
        case True
        with r(3) j idx \<open>n < k\<close> show ?thesis by simp
      next
        case False
        with r(3) j idx \<open>n < k\<close> show ?thesis by (auto simp: nth_list_update)
      qed
    qed
    with eq r(2) show ?thesis by blast
  qed
qed

lemma window_loop_ok:
  assumes "nb \<le> length rin" "nb \<le> length buf" "nb \<le> length win" "n \<le> nb"
  shows "\<exists>r. window_loop ops nb n buf win rin = Inr r \<and> length r = length rin \<and>
           (\<forall>j < length rin. r ! j =
              (if n \<le> j \<and> j < nb then f_mul ops (buf ! j) (win ! j) else rin ! j))"
  using assms
proof (induction ops nb n buf win rin rule: window_loop.induct)
  case (1 ops nb n buf win rin)
  show ?case
  proof (cases "n < nb")
    case False
    then show ?thesis by (subst window_loop.simps) auto
  next
    case True
    with "1.prems" have idx: "n < length rin" "n < length buf" "n < length win"
      by simp_all
    let ?b = "rin[n := f_mul ops (buf ! n) (win ! n)]"
    from "1.prems" True idx
    have "\<exists>r. window_loop ops nb (Suc n) buf win ?b = Inr r \<and> length r = length ?b \<and>
           (\<forall>j < length ?b. r ! j =
              (if Suc n \<le> j \<and> j < nb then f_mul ops (buf ! j) (win ! j) else ?b ! j))"
      by (intro "1.IH") simp_all
    then obtain r where r: "window_loop ops nb (Suc n) buf win ?b = Inr r"
      "length r = length rin"
      "\<forall>j < length rin. r ! j =
              (if Suc n \<le> j \<and> j < nb then f_mul ops (buf ! j) (win ! j) else ?b ! j)"
      by auto
    have eq: "window_loop ops nb n buf win rin = Inr r"
      using True idx r(1) by (subst window_loop.simps) simp
    have "\<forall>j < length rin. r ! j =
              (if n \<le> j \<and> j < nb then f_mul ops (buf ! j) (win ! j) else rin ! j)"
    proof (intro allI impI)
      fix j assume j: "j < length rin"
      show "r ! j = (if n \<le> j \<and> j < nb then f_mul ops (buf ! j) (win ! j) else rin ! j)"
        using r(3) j idx True by (cases "j = n") (auto simp: nth_list_update)
    qed
    with eq r(2) show ?thesis by blast
  qed
qed

lemma power_loop_ok:
  assumes "length out \<le> length co" "i \<le> length out"
  shows "\<exists>r. power_loop ops i co out = Inr r \<and> length r = length out \<and>
           (\<forall>j < length out. r ! j =
              (if i \<le> j
               then f_to_double ops
                      (f_div ops
                         (f_add ops (f_mul ops (fst (co ! j)) (fst (co ! j)))
                                    (f_mul ops (snd (co ! j)) (snd (co ! j))))
                         (f_of_size ops (size_mul (length out) (length out))))
               else out ! j))"
  using assms
proof (induction ops i co out rule: power_loop.induct)
  case (1 ops i co out)
  show ?case
  proof (cases "i < length out")
    case False
    then show ?thesis by (subst power_loop.simps) auto
  next
    case True
    with "1.prems" have idx: "i < length co" by simp
    let ?v = "f_to_double ops
                (f_div ops
                   (f_add ops (f_mul ops (fst (co ! i)) (fst (co ! i)))
                              (f_mul ops (snd (co ! i)) (snd (co ! i))))
                   (f_of_size ops (size_mul (length out) (length out))))"
    let ?b = "out[i := ?v]"
    from "1.prems" True idx
    have "\<exists>r. power_loop ops (Suc i) co ?b = Inr r \<and> length r = length ?b \<and>
           (\<forall>j < length ?b. r ! j =
              (if Suc i \<le> j
               then f_to_double ops
                      (f_div ops
                         (f_add ops (f_mul ops (fst (co ! j)) (fst (co ! j)))
                                    (f_mul ops (snd (co ! j)) (snd (co ! j))))
                         (f_of_size ops (size_mul (length ?b) (length ?b))))
               else ?b ! j))"
      by (intro "1.IH") simp_all
    then obtain r where r: "power_loop ops (Suc i) co ?b = Inr r"
      "length r = length out"
      "\<forall>j < length out. r ! j =
              (if Suc i \<le> j
               then f_to_double ops
                      (f_div ops
                         (f_add ops (f_mul ops (fst (co ! j)) (fst (co ! j)))
                                    (f_mul ops (snd (co ! j)) (snd (co ! j))))
                         (f_of_size ops (size_mul (length out) (length out))))
               else ?b ! j)"
      by auto
    have eq: "power_loop ops i co out = Inr r"
      using True idx r(1) by (subst power_loop.simps) simp
    have "\<forall>j < length out. r ! j =
              (if i \<le> j
               then f_to_double ops
                      (f_div ops
                         (f_add ops (f_mul ops (fst (co ! j)) (fst (co ! j)))
                                    (f_mul ops (snd (co ! j)) (snd (co ! j))))
                         (f_of_size ops (size_mul (length out) (length out))))
               else out ! j)"
    proof (intro allI impI)
      fix j assume j: "j < length out"
      show "r ! j =
              (if i \<le> j
               then f_to_double ops
                      (f_div ops
                         (f_add ops (f_mul ops (fst (co ! j)) (fst (co ! j)))
                                    (f_mul ops (snd (co ! j)) (snd (co ! j))))
                         (f_of_size ops (size_mul (length out) (length out))))
               else out ! j)"
        using r(3) j idx True by (cases "j = i") (auto simp: nth_list_update)
    qed
    with eq r(2) show ?thesis by blast
  qed
qed

subsection \<open>\<open>process\<close> on its two paths\<close>

lemma copy_span_ok: "length src \<le> length dst \<Longrightarrow> copy_span src dst = Inr (src @ drop (length src) dst)"
  by (simp add: copy_span_def)

lemma process_body_run:
  assumes nbp: "\<not> bypass st" "fftw_ready st"
    and ah: "asserts_hold nb st left_in right_in"
    and nb: "nb < size_range" "nb \<le> length (hann_window st)"
    and outs: "length left_in \<le> length left_out" "length right_in \<le> length right_out"
  shows "\<exists>m rin. process_body b ops nb st left_in right_in left_out right_out =
            Inr (st\<lparr>in_mono := m, real_input := rin,
                    idle_queue := (if send_notifications st then Suc (idle_queue st)
                                   else idle_queue st)\<rparr>,
                 left_in @ drop (length left_in) left_out,
                 right_in @ drop (length right_in) right_out)
          \<and> length m = nb \<and> length rin = nb
          \<and> (\<forall>j < nb. m ! j =
                (if j < nb - length left_in then in_mono st ! (length left_in + j)
                 else f_mul ops (f_half ops)
                        (f_add ops (left_in ! (j - (nb - length left_in)))
                                   (right_in ! (j - (nb - length left_in))))))
          \<and> (\<forall>j < nb. rin ! j = f_mul ops (m ! j) (hann_window st ! j))"
proof -
  let ?k = "length left_in"
  from ah have len: "length right_in = ?k" "?k \<le> nb" "length (in_mono st) = nb"
    "length (real_input st) = nb"
    by (simp_all add: asserts_hold_def)
  have sub: "size_sub nb ?k = nb - ?k"
    using len(2) nb(1) by (rule size_sub_le)
  have "\<exists>r. shift_loop (nb - ?k) ?k 0 (in_mono st) = Inr r \<and> length r = length (in_mono st) \<and>
           (\<forall>j < length (in_mono st). r ! j =
              (if 0 \<le> j \<and> j < nb - ?k then in_mono st ! (?k + j) else in_mono st ! j))"
    using len nb(1) by (intro shift_loop_ok) simp_all
  then obtain m1 where m1: "shift_loop (nb - ?k) ?k 0 (in_mono st) = Inr m1" "length m1 = nb"
    "\<forall>j < nb. m1 ! j = (if j < nb - ?k then in_mono st ! (?k + j) else in_mono st ! j)"
    using len(3) by auto
  have "\<exists>r. downmix_loop ops nb ?k 0 left_in right_in m1 = Inr r \<and> length r = length m1 \<and>
           (\<forall>j < length m1. r ! j =
              (if (nb - ?k) + 0 \<le> j \<and> j < (nb - ?k) + ?k
               then f_mul ops (f_half ops)
                      (f_add ops (left_in ! (j - (nb - ?k))) (right_in ! (j - (nb - ?k))))
               else m1 ! j))"
    using len nb(1) m1(2) sub by (intro downmix_loop_ok) simp_all
  then obtain m2 where m2: "downmix_loop ops nb ?k 0 left_in right_in m1 = Inr m2"
    "length m2 = nb"
    "\<forall>j < nb. m2 ! j =
              (if nb - ?k \<le> j
               then f_mul ops (f_half ops)
                      (f_add ops (left_in ! (j - (nb - ?k))) (right_in ! (j - (nb - ?k))))
               else m1 ! j)"
    using m1(2) len(2) by auto
  have "\<exists>r. window_loop ops nb 0 m2 (hann_window st) (real_input st) = Inr r \<and>
           length r = length (real_input st) \<and>
           (\<forall>j < length (real_input st). r ! j =
              (if 0 \<le> j \<and> j < nb then f_mul ops (m2 ! j) (hann_window st ! j)
               else real_input st ! j))"
    using len nb(2) m2(2) by (intro window_loop_ok) simp_all
  then obtain rin where rin: "window_loop ops nb 0 m2 (hann_window st) (real_input st) = Inr rin"
    "length rin = nb" "\<forall>j < nb. rin ! j = f_mul ops (m2 ! j) (hann_window st ! j)"
    using len(4) by auto
  have "\<forall>j < nb. m2 ! j =
                (if j < nb - ?k then in_mono st ! (?k + j)
                 else f_mul ops (f_half ops)
                        (f_add ops (left_in ! (j - (nb - ?k))) (right_in ! (j - (nb - ?k)))))"
    using m1(3) m2(3) by auto
  moreover have "process_body b ops nb st left_in right_in left_out right_out =
            Inr (st\<lparr>in_mono := m2, real_input := rin,
                    idle_queue := (if send_notifications st then Suc (idle_queue st)
                                   else idle_queue st)\<rparr>,
                 left_in @ drop ?k left_out,
                 right_in @ drop (length right_in) right_out)"
    using nbp ah outs m1(1) m2(1) rin(1) sub
    by (cases st) (simp add: process_body_def copy_span_ok)
  ultimately show ?thesis using m2(2) rin(2,3) by blast
qed

lemma acquire_free: "\<not> data_mutex st \<Longrightarrow> acquire st = Inr (st\<lparr>data_mutex := True\<rparr>)"
  by (simp add: acquire_def)

lemma release_acquired: "\<not> data_mutex st \<Longrightarrow> release (st\<lparr>data_mutex := True\<rparr>) = st"
  by (simp add: release_def)

lemma process_body_copies:
  assumes "process_body b ops nb st left_in right_in left_out right_out = Inr (s, lo, ro)"
  shows "copy_span left_in left_out = Inr lo \<and> copy_span right_in right_out = Inr ro"
  using assms unfolding process_body_def
  by (auto split: sum.splits if_splits)

lemma process_copies:
  assumes "process b ops nb st left_in right_in left_out right_out = Inr (s, lo, ro)"
  shows "copy_span left_in left_out = Inr lo \<and> copy_span right_in right_out = Inr ro"
proof -
  from assms obtain s0 s1 where
    "process_body b ops nb s0 left_in right_in left_out right_out = Inr (s1, lo, ro)"
    unfolding process_def by (auto split: sum.splits)
  then show ?thesis by (rule process_body_copies)
qed

lemma copy_span_Inr:
  assumes "copy_span src dst = Inr r"
  shows "r = src @ drop (length src) dst" "length src \<le> length dst"
  using assms by (auto simp: copy_span_def split: if_splits)

lemma process_early:
  assumes "bypass st \<or> \<not> fftw_ready st" "\<not> data_mutex st"
    "length left_in \<le> length left_out" "length right_in \<le> length right_out"
  shows "process b ops nb st left_in right_in left_out right_out =
           Inr (st, left_in @ drop (length left_in) left_out,
                    right_in @ drop (length right_in) right_out)"
proof -
  let ?s = "st\<lparr>data_mutex := True\<rparr>"
  have "process_body b ops nb ?s left_in right_in left_out right_out =
           Inr (?s, left_in @ drop (length left_in) left_out,
                    right_in @ drop (length right_in) right_out)"
    using assms by (auto simp: process_body_def copy_span_ok)
  then show ?thesis
    using assms(2) by (simp add: process_def acquire_free release_acquired)
qed


subsection \<open>Live analyzers\<close>

lemma live_st4: "live 4 st4"
  by (simp add: live_def st4_def size_range_def)

lemma live_new:
  "nb < size_range \<Longrightarrow> length raw = nb \<Longrightarrow> live nb (Spectrum_new ops nb d0 raw bp sn r)"
  by (simp add: live_def Spectrum_new_def)

lemma live_st8192: "live 8192 st8192"
  unfolding st8192_def n_bands_hardcoded_def
  by (rule live_new) (simp_all add: size_range_def)

lemma process_run:
  assumes lv: "live nb st" and nbp: "\<not> bypass st"
    and ins: "length right_in = length left_in" "length left_in \<le> nb"
    and outs: "length left_in \<le> length left_out" "length right_in \<le> length right_out"
  shows "\<exists>m rin. process b ops nb st left_in right_in left_out right_out =
            Inr (st\<lparr>in_mono := m, real_input := rin,
                    idle_queue := (if send_notifications st then Suc (idle_queue st)
                                   else idle_queue st)\<rparr>,
                 left_in @ drop (length left_in) left_out,
                 right_in @ drop (length right_in) right_out)
          \<and> length m = nb \<and> length rin = nb
          \<and> (\<forall>j < nb. m ! j =
                (if j < nb - length left_in then in_mono st ! (length left_in + j)
                 else f_mul ops (f_half ops)
                        (f_add ops (left_in ! (j - (nb - length left_in)))
                                   (right_in ! (j - (nb - length left_in))))))
          \<and> (\<forall>j < nb. rin ! j = f_mul ops (m ! j) (hann_window st ! j))"
proof -
  let ?s = "st\<lparr>data_mutex := True\<rparr>"
  from lv have free: "\<not> data_mutex st" and rdy: "fftw_ready st" and nb: "nb < size_range"
    and lens: "length (in_mono st) = nb" "length (real_input st) = nb"
      "length (hann_window st) = nb"
    by (simp_all add: live_def)
  have ah: "asserts_hold nb ?s left_in right_in"
    using ins lens by (simp add: asserts_hold_def)
  have p1: "\<not> bypass ?s" "fftw_ready ?s" using nbp rdy by simp_all
  have p2: "nb \<le> length (hann_window ?s)" using lens(3) by simp
  from process_body_run [OF p1 ah nb p2 outs, of b ops]
  obtain m rin where
    raw: "process_body b ops nb ?s left_in right_in left_out right_out =
            Inr (?s\<lparr>in_mono := m, real_input := rin,
                    idle_queue := (if send_notifications ?s then Suc (idle_queue ?s)
                                   else idle_queue ?s)\<rparr>,
                 left_in @ drop (length left_in) left_out,
                 right_in @ drop (length right_in) right_out)"
      "length m = nb" "length rin = nb"
      "\<forall>j < nb. m ! j =
                (if j < nb - length left_in then in_mono ?s ! (length left_in + j)
                 else f_mul ops (f_half ops)
                        (f_add ops (left_in ! (j - (nb - length left_in)))
                                   (right_in ! (j - (nb - length left_in)))))"
      "\<forall>j < nb. rin ! j = f_mul ops (m ! j) (hann_window ?s ! j)"
    by blast
  have props: "length m = nb" "length rin = nb"
      "\<forall>j < nb. m ! j =
                (if j < nb - length left_in then in_mono st ! (length left_in + j)
                 else f_mul ops (f_half ops)
                        (f_add ops (left_in ! (j - (nb - length left_in)))
                                   (right_in ! (j - (nb - length left_in)))))"
      "\<forall>j < nb. rin ! j = f_mul ops (m ! j) (hann_window st ! j)"
    using raw(2-5) by simp_all
  have "process b ops nb st left_in right_in left_out right_out =
            Inr (st\<lparr>in_mono := m, real_input := rin,
                    idle_queue := (if send_notifications st then Suc (idle_queue st)
                                   else idle_queue st)\<rparr>,
                 left_in @ drop (length left_in) left_out,
                 right_in @ drop (length right_in) right_out)"
    using free raw(1) by (cases st) (simp add: process_def acquire_def release_def)
  with props show ?thesis by blast
qed

lemma process_run_live:
  assumes "live nb st" "length m = nb" "length rin = nb"
  shows "live nb (st\<lparr>in_mono := m, real_input := rin, idle_queue := q\<rparr>)"
  using assms by (simp add: live_def)

text \<open>
  The constructor makes a live analyzer (\<open>live_new\<close>), and a \<open>process\<close> call with
  well-formed spans returns a live analyzer again.
\<close>

lemma process_keeps_live:
  assumes "live nb st"
    "length right_in = length left_in" "length left_in \<le> nb"
    "length left_in \<le> length left_out" "length right_in \<le> length right_out"
  shows "\<exists>s lo ro. process b ops nb st left_in right_in left_out right_out = Inr (s, lo, ro)
           \<and> live nb s"
proof (cases "bypass st")
  case True
  from assms(1) have "\<not> data_mutex st" by (simp add: live_def)
  with True process_early [of st left_in left_out right_in right_out b ops nb] assms
  show ?thesis by simp
next
  case False
  from process_run [OF assms(1) False assms(2-5), of b ops] obtain m rin where
    "process b ops nb st left_in right_in left_out right_out =
            Inr (st\<lparr>in_mono := m, real_input := rin,
                    idle_queue := (if send_notifications st then Suc (idle_queue st)
                                   else idle_queue st)\<rparr>,
                 left_in @ drop (length left_in) left_out,
                 right_in @ drop (length right_in) right_out)"
    "length m = nb" "length rin = nb"
    by blast
  with process_run_live [OF assms(1) this(2,3)] show ?thesis by simp
qed

subsection \<open>The example analyzer, evaluated\<close>

lemma st4_process:
  "process Release exact_arith 4 st4 [10, 20] [30, 40] [0, 0] [0, 0] =
     Inr (st4\<lparr>in_mono := [3, 4, 20, 30], real_input := [0, 3, 15, 0], idle_queue := 1\<rparr>,
          [10, 20], [30, 40])"
  by (simp add: process_def acquire_def release_def process_body_def copy_span_def st4_def
      asserts_hold_def shift_loop.simps downmix_loop.simps window_loop.simps
      size_sub_def size_add_def size_range_def exact_arith_def)

section \<open>The claims\<close>

subsection \<open>Transparency\<close>

text \<open>
  Claim C3. Whenever a \<open>process\<close> call returns, the output spans hold the input
  spans, element by element: the first \<open>length left_in\<close> elements of \<open>left_out\<close> are
  \<open>left_in\<close> and likewise on the right, so output spans of the length of the inputs
  equal them. Nothing is assumed about the state: \<open>bypass\<close>, \<open>fftw_ready\<close> and the
  build are arbitrary.
\<close>

theorem process_transparent:
  assumes "process b ops nb st left_in right_in left_out right_out = Inr (st', lo, ro)"
  shows "take (length left_in) lo = left_in \<and> take (length right_in) ro = right_in
         \<and> length lo = length left_out \<and> length ro = length right_out
         \<and> (length left_out = length left_in \<longrightarrow> lo = left_in)
         \<and> (length right_out = length right_in \<longrightarrow> ro = right_in)"
proof -
  from process_copies [OF assms]
  have c: "copy_span left_in left_out = Inr lo" "copy_span right_in right_out = Inr ro"
    by simp_all
  from copy_span_Inr [OF c(1)] copy_span_Inr [OF c(2)] show ?thesis by simp
qed

theorem process_transparent_witness:
  "(\<exists>s lo ro. process Release exact_arith 4 st4 [10, 20] [30, 40] [0, 0] [0, 0] = Inr (s, lo, ro)
      \<and> lo = [10, 20] \<and> ro = [30, 40])
   \<and> (\<exists>s lo ro. process Debug exact_arith 4 (st4\<lparr>bypass := True\<rparr>)
                      [10, 20] [30, 40] [0, 0] [0, 0] = Inr (s, lo, ro)
      \<and> lo = [10, 20] \<and> ro = [30, 40])
   \<and> (\<exists>s lo ro. process Release exact_arith 4 (st4\<lparr>fftw_ready := False\<rparr>)
                      [10, 20] [30, 40] [0, 0] [0, 0] = Inr (s, lo, ro)
      \<and> lo = [10, 20] \<and> ro = [30, 40])"
proof -
  have byp: "process Debug exact_arith 4 (st4\<lparr>bypass := True\<rparr>)
               [10, 20] [30, 40] [0, 0] [0, 0] = Inr (st4\<lparr>bypass := True\<rparr>, [10, 20], [30, 40])"
    by (simp add: process_def acquire_def release_def process_body_def copy_span_def st4_def)
  have off: "process Release exact_arith 4 (st4\<lparr>fftw_ready := False\<rparr>)
               [10, 20] [30, 40] [0, 0] [0, 0] =
             Inr (st4\<lparr>fftw_ready := False\<rparr>, [10, 20], [30, 40])"
    by (simp add: process_def acquire_def release_def process_body_def copy_span_def st4_def)
  from process_transparent [OF st4_process] process_transparent [OF byp]
    process_transparent [OF off]
  show ?thesis using st4_process byp off by simp
qed

subsection \<open>The early return\<close>

text \<open>
  Claim C10. A \<open>process\<close> call that finds \<open>bypass\<close> set or \<open>fftw_ready\<close> cleared
  returns right after the pass-through copy: it returns (in either build, whatever
  the length of the input), the outputs hold the inputs, and the analyzer's state is
  the one before the call, so \<open>in_mono\<close> and \<open>real_input\<close> are unchanged. The output
  spans are at least as long as the input spans and the mutex is free.
\<close>

theorem process_early_return:
  assumes "bypass st \<or> \<not> fftw_ready st" "\<not> data_mutex st"
    "length left_in \<le> length left_out" "length right_in \<le> length right_out"
  shows "\<exists>st'. process b ops nb st left_in right_in left_out right_out =
                  Inr (st', left_in @ drop (length left_in) left_out,
                            right_in @ drop (length right_in) right_out)
               \<and> in_mono st' = in_mono st \<and> real_input st' = real_input st \<and> st' = st"
  using process_early [OF assms] by simp

theorem process_early_return_witness:
  "\<exists>st'. process Debug exact_arith 4 (st4\<lparr>bypass := True\<rparr>)
            [10, 20, 30, 40, 50] [1, 2, 3, 4, 5] [0, 0, 0, 0, 0] [0, 0, 0, 0, 0] =
            Inr (st', [10, 20, 30, 40, 50], [1, 2, 3, 4, 5])
         \<and> in_mono st' = [1, 2, 3, 4] \<and> real_input st' = [0, 0, 0, 0]"
  using process_early_return [of "st4\<lparr>bypass := True\<rparr>" "[10, 20, 30, 40, 50]"
      "[0, 0, 0, 0, 0]" "[1, 2, 3, 4, 5]" "[0, 0, 0, 0, 0]" Debug exact_arith 4]
  by (simp add: st4_def)

subsection \<open>Shift and recency\<close>

text \<open>
  Claim C4. A \<open>process\<close> call on a live analyzer that is not bypassed, with \<open>M\<close> input
  samples on each side, \<open>M \<le> n_bands\<close>, returns, and then the mono buffer still has
  \<open>n_bands\<close> elements, its first \<open>n_bands - M\<close> elements are the elements
  \<open>M, \<dots>, n_bands - 1\<close> of the buffer before the call, and its last \<open>M\<close> elements
  are \<open>0.5 * (left_in[k] + right_in[k])\<close> for \<open>k = 0, \<dots>, M - 1\<close>, in the arithmetic
  of the sample type.
\<close>

theorem process_shift_in:
  assumes "live nb st" "\<not> bypass st"
    "length right_in = length left_in" "length left_in \<le> nb"
    "length left_in \<le> length left_out" "length right_in \<le> length right_out"
  shows "\<exists>st' lo ro. process b ops nb st left_in right_in left_out right_out = Inr (st', lo, ro)
           \<and> length (in_mono st') = nb
           \<and> (\<forall>j < nb - length left_in. in_mono st' ! j = in_mono st ! (length left_in + j))
           \<and> (\<forall>k < length left_in.
                 in_mono st' ! (nb - length left_in + k) =
                   f_mul ops (f_half ops) (f_add ops (left_in ! k) (right_in ! k)))"
proof -
  from process_run [OF assms, of b ops] obtain m rin where
    run: "process b ops nb st left_in right_in left_out right_out =
            Inr (st\<lparr>in_mono := m, real_input := rin,
                    idle_queue := (if send_notifications st then Suc (idle_queue st)
                                   else idle_queue st)\<rparr>,
                 left_in @ drop (length left_in) left_out,
                 right_in @ drop (length right_in) right_out)"
    and len: "length m = nb"
    and m: "\<forall>j < nb. m ! j =
                (if j < nb - length left_in then in_mono st ! (length left_in + j)
                 else f_mul ops (f_half ops)
                        (f_add ops (left_in ! (j - (nb - length left_in)))
                                   (right_in ! (j - (nb - length left_in)))))"
    by blast
  have old: "\<forall>j < nb - length left_in. m ! j = in_mono st ! (length left_in + j)"
    using m by simp
  have new: "\<forall>k < length left_in. m ! (nb - length left_in + k) =
                   f_mul ops (f_half ops) (f_add ops (left_in ! k) (right_in ! k))"
  proof (intro allI impI)
    fix k assume k: "k < length left_in"
    with assms(4) have "nb - length left_in + k < nb" by simp
    with m k show "m ! (nb - length left_in + k) =
                   f_mul ops (f_half ops) (f_add ops (left_in ! k) (right_in ! k))"
      by simp
  qed
  show ?thesis using run len old new by simp
qed

theorem process_shift_in_witness:
  "\<exists>st' lo ro. process Release exact_arith 4 st4 [10, 20] [30, 40] [0, 0] [0, 0] = Inr (st', lo, ro)
      \<and> length (in_mono st') = 4
      \<and> in_mono st' ! 0 = 3 \<and> in_mono st' ! 1 = 4
      \<and> in_mono st' ! 2 = 20 \<and> in_mono st' ! 3 = 30"
proof -
  have "live 4 st4" "\<not> bypass st4" by (simp_all add: live_st4) (simp add: st4_def)
  from process_shift_in [OF this, of "[30, 40]" "[10, 20]" "[0, 0]" "[0, 0]" Release exact_arith]
  obtain st' lo ro where
    run: "process Release exact_arith 4 st4 [10, 20] [30, 40] [0, 0] [0, 0] = Inr (st', lo, ro)"
    and len: "length (in_mono st') = 4"
    and old: "\<forall>j < 4 - length [10, 20 :: real].
                in_mono st' ! j = in_mono st4 ! (length [10, 20 :: real] + j)"
    and new: "\<forall>k < length [10, 20 :: real].
                in_mono st' ! (4 - length [10, 20 :: real] + k) =
                  f_mul exact_arith (f_half exact_arith)
                    (f_add exact_arith ([10, 20] ! k) ([30, 40] ! k))"
    by auto
  have "in_mono st' ! 0 = 3" using old [rule_format, of 0] by (simp add: st4_def)
  moreover have "in_mono st' ! 1 = 4" using old [rule_format, of 1] by (simp add: st4_def)
  moreover have "in_mono st' ! 2 = 20"
    using new [rule_format, of 0] by (simp add: exact_arith_def)
  moreover have "in_mono st' ! 3 = 30"
    using new [rule_format, of 1] by (simp add: exact_arith_def)
  ultimately show ?thesis using run len by blast
qed

subsection \<open>Notifications switched off\<close>

text \<open>
  Claim C7. A \<open>process\<close> call on a live analyzer that is not bypassed, made while
  \<open>send_notifications\<close> (the spec's \<open>post_messages\<close>) is false, returns with the outputs
  copied from the inputs (over the first elements of the output spans) and with the
  buffers updated: \<open>in_mono\<close> is shifted down by the number of new samples and ends
  with their down-mix, and every element of \<open>real_input\<close> is the product of the new
  \<open>in_mono\<close> and the Hann table. Both buffers are exactly as the same call leaves
  them when \<open>send_notifications\<close> is true. But the call hands no closure to
  \<open>util::idle_add\<close> and emits no \<open>power\<close> signal, whereas the call with
  \<open>send_notifications\<close> true queues one closure.
\<close>

theorem process_without_notifications:
  assumes "live nb st" "\<not> bypass st" "\<not> send_notifications st"
    "length right_in = length left_in" "length left_in \<le> nb"
    "length left_in \<le> length left_out" "length right_in \<le> length right_out"
  shows "\<exists>s_off s_on.
           process b ops nb st left_in right_in left_out right_out =
             Inr (s_off, left_in @ drop (length left_in) left_out,
                         right_in @ drop (length right_in) right_out)
         \<and> process b ops nb (st\<lparr>send_notifications := True\<rparr>)
               left_in right_in left_out right_out =
             Inr (s_on, left_in @ drop (length left_in) left_out,
                        right_in @ drop (length right_in) right_out)
         \<and> in_mono s_off = in_mono s_on \<and> real_input s_off = real_input s_on
         \<and> length (in_mono s_off) = nb \<and> length (real_input s_off) = nb
         \<and> (\<forall>j < nb - length left_in. in_mono s_off ! j = in_mono st ! (length left_in + j))
         \<and> (\<forall>k < length left_in.
               in_mono s_off ! (nb - length left_in + k) =
                 f_mul ops (f_half ops) (f_add ops (left_in ! k) (right_in ! k)))
         \<and> (\<forall>j < nb. real_input s_off ! j =
               f_mul ops (in_mono s_off ! j) (hann_window st ! j))
         \<and> idle_queue s_off = idle_queue st \<and> power_log s_off = power_log st
         \<and> idle_queue s_on = Suc (idle_queue st)"
proof -
  let ?on = "st\<lparr>send_notifications := True\<rparr>"
  let ?lo = "left_in @ drop (length left_in) left_out"
  let ?ro = "right_in @ drop (length right_in) right_out"
  have lv: "live nb ?on" and nbp: "\<not> bypass ?on"
    using assms(1,2) by (simp_all add: live_def)
  from process_run [OF assms(1,2,4-7), of b ops] obtain m rin where
    off: "process b ops nb st left_in right_in left_out right_out =
            Inr (st\<lparr>in_mono := m, real_input := rin,
                    idle_queue := (if send_notifications st then Suc (idle_queue st)
                                   else idle_queue st)\<rparr>, ?lo, ?ro)"
    and len: "length m = nb" "length rin = nb"
    and m: "\<forall>j < nb. m ! j =
                (if j < nb - length left_in then in_mono st ! (length left_in + j)
                 else f_mul ops (f_half ops)
                        (f_add ops (left_in ! (j - (nb - length left_in)))
                                   (right_in ! (j - (nb - length left_in)))))"
    and rin: "\<forall>j < nb. rin ! j = f_mul ops (m ! j) (hann_window st ! j)"
    by blast
  from process_run [OF lv nbp assms(4-7), of b ops] obtain m' rin' where
    on: "process b ops nb ?on left_in right_in left_out right_out =
            Inr (?on\<lparr>in_mono := m', real_input := rin',
                    idle_queue := (if send_notifications ?on then Suc (idle_queue ?on)
                                   else idle_queue ?on)\<rparr>, ?lo, ?ro)"
    and len': "length m' = nb" "length rin' = nb"
    and m': "\<forall>j < nb. m' ! j =
                (if j < nb - length left_in then in_mono ?on ! (length left_in + j)
                 else f_mul ops (f_half ops)
                        (f_add ops (left_in ! (j - (nb - length left_in)))
                                   (right_in ! (j - (nb - length left_in)))))"
    and rin': "\<forall>j < nb. rin' ! j = f_mul ops (m' ! j) (hann_window ?on ! j)"
    by blast
  have mm: "m' = m"
    using len len' m m' by (intro nth_equalityI) simp_all
  have rr: "rin' = rin"
    using len len' rin rin' mm by (intro nth_equalityI) simp_all
  have old: "\<forall>j < nb - length left_in. m ! j = in_mono st ! (length left_in + j)"
    using m by simp
  have new: "\<forall>k < length left_in. m ! (nb - length left_in + k) =
                   f_mul ops (f_half ops) (f_add ops (left_in ! k) (right_in ! k))"
  proof (intro allI impI)
    fix k assume k: "k < length left_in"
    with assms(5) have "nb - length left_in + k < nb" by simp
    with m k show "m ! (nb - length left_in + k) =
                   f_mul ops (f_half ops) (f_add ops (left_in ! k) (right_in ! k))"
      by simp
  qed
  show ?thesis using off on assms(3) mm rr len old new rin by simp
qed

theorem process_without_notifications_witness:
  "\<exists>s_off s_on.
      process Release exact_arith 4 (st4\<lparr>send_notifications := False\<rparr>)
        [10, 20] [30, 40] [0, 0] [0, 0] = Inr (s_off, [10, 20], [30, 40])
    \<and> process Release exact_arith 4 st4 [10, 20] [30, 40] [0, 0] [0, 0] =
        Inr (s_on, [10, 20], [30, 40])
    \<and> in_mono s_off = in_mono s_on \<and> real_input s_off = real_input s_on
    \<and> in_mono s_off ! 0 = 3 \<and> in_mono s_off ! 1 = 4
    \<and> in_mono s_off ! 2 = 20 \<and> in_mono s_off ! 3 = 30
    \<and> real_input s_off ! 0 = 0 \<and> real_input s_off ! 1 = 3
    \<and> real_input s_off ! 2 = 15 \<and> real_input s_off ! 3 = 0
    \<and> idle_queue s_off = 0 \<and> power_log s_off = [] \<and> idle_queue s_on = 1"
proof -
  let ?off = "st4\<lparr>send_notifications := False\<rparr>"
  have on: "?off\<lparr>send_notifications := True\<rparr> = st4" by (simp add: st4_def)
  have "live 4 ?off" "\<not> bypass ?off" "\<not> send_notifications ?off"
    using live_st4 by (simp_all add: live_def st4_def)
  from process_without_notifications
         [OF this, of "[30, 40]" "[10, 20]" "[0, 0]" "[0, 0]" Release exact_arith]
  obtain s_off s_on where
    runs: "process Release exact_arith 4 ?off [10, 20] [30, 40] [0, 0] [0, 0] =
             Inr (s_off, [10, 20], [30, 40])"
      "process Release exact_arith 4 st4 [10, 20] [30, 40] [0, 0] [0, 0] =
             Inr (s_on, [10, 20], [30, 40])"
    and same: "in_mono s_off = in_mono s_on" "real_input s_off = real_input s_on"
    and old: "\<forall>j < 4 - length [10, 20 :: real].
                in_mono s_off ! j = in_mono ?off ! (length [10, 20 :: real] + j)"
    and new: "\<forall>k < length [10, 20 :: real].
                in_mono s_off ! (4 - length [10, 20 :: real] + k) =
                  f_mul exact_arith (f_half exact_arith)
                    (f_add exact_arith ([10, 20] ! k) ([30, 40] ! k))"
    and win: "\<forall>j < 4. real_input s_off ! j =
                f_mul exact_arith (in_mono s_off ! j) (hann_window ?off ! j)"
    and rest: "idle_queue s_off = idle_queue ?off" "power_log s_off = power_log ?off"
      "idle_queue s_on = Suc (idle_queue ?off)"
    unfolding on by auto
  have m: "in_mono s_off ! 0 = 3" "in_mono s_off ! 1 = 4"
    "in_mono s_off ! 2 = 20" "in_mono s_off ! 3 = 30"
    using old [rule_format, of 0] old [rule_format, of 1]
      new [rule_format, of 0] new [rule_format, of 1]
    by (simp_all add: st4_def exact_arith_def)
  have r: "real_input s_off ! 0 = 0" "real_input s_off ! 1 = 3"
    "real_input s_off ! 2 = 15" "real_input s_off ! 3 = 0"
    using win [rule_format, of 0] win [rule_format, of 1]
      win [rule_format, of 2] win [rule_format, of 3] m
    by (simp_all add: st4_def exact_arith_def)
  have q: "idle_queue s_off = 0" "power_log s_off = []" "idle_queue s_on = 1"
    using rest by (simp_all add: st4_def)
  from runs same m r q show ?thesis by blast
qed

subsection \<open>Bypass\<close>

lemma idle_task_bypassed: "bypass st \<Longrightarrow> idle_task ops nb st = Inr st"
  by (simp add: idle_task_def)

lemma run_idle_bypassed:
  assumes "bypass st"
  shows "\<exists>s. run_idle ops nb st = Inr s \<and> bypass s \<and> power_log s = power_log st
           \<and> idle_queue s \<le> idle_queue st \<and> data_mutex s = data_mutex st"
  using assms by (simp add: run_idle_def idle_task_bypassed)

lemma process_bypassed:
  assumes "bypass st" "process b ops nb st left_in right_in left_out right_out = Inr (s, lo, ro)"
  shows "s = st"
proof -
  from assms(2) obtain s0 s1 where
    a: "acquire st = Inr s0" and
    pb: "process_body b ops nb s0 left_in right_in left_out right_out = Inr (s1, lo, ro)" and
    s: "s = release s1"
    unfolding process_def by (auto split: sum.splits)
  from a have s0: "s0 = st\<lparr>data_mutex := True\<rparr>" "\<not> data_mutex st"
    by (auto simp: acquire_def split: if_splits)
  from pb s0 assms(1) have "s1 = s0"
    by (auto simp: process_body_def split: sum.splits)
  with s s0 show ?thesis by (simp add: release_acquired)
qed

text \<open>
  Under \<open>bypass\<close> a sequence of \<open>process\<close> calls and idle steps runs to its end when
  the output spans are long enough: neither the assertions nor the loops are reached.
\<close>

lemma bypass_run_returns:
  assumes "bypass st" "\<not> data_mutex st" "\<forall>e \<in> set evs. fitting_process_or_idle e"
  shows "\<exists>st'. run_events b ops nb evs st = Inr st'"
  using assms
proof (induction evs arbitrary: st)
  case Nil
  then show ?case by simp
next
  case (Cons e es)
  have "\<exists>s. run_event b ops nb e st = Inr s \<and> bypass s \<and> \<not> data_mutex s"
  proof (cases e)
    case (Process left_in right_in left_out right_out)
    with Cons.prems(3) have fit: "length left_in \<le> length left_out"
      "length right_in \<le> length right_out" by simp_all
    from Cons.prems(1) have "bypass st \<or> \<not> fftw_ready st" by simp
    from process_early [OF this Cons.prems(2) fit, of b ops nb] Process Cons.prems(1,2)
    show ?thesis by simp
  next
    case Idle
    with run_idle_bypassed [OF Cons.prems(1), of ops nb] Cons.prems(2) show ?thesis by auto
  next
    case (ShowChanged v)
    with Cons.prems(3) show ?thesis by simp
  next
    case Destroy
    with Cons.prems(3) show ?thesis by simp
  qed
  then obtain s where s: "run_event b ops nb e st = Inr s" "bypass s" "\<not> data_mutex s"
    by blast
  from Cons.prems(3) have "\<forall>e \<in> set es. fitting_process_or_idle e" by simp
  from Cons.IH [OF s(2,3) this] s(1) show ?case by simp
qed

text \<open>
  Claim C6. While \<open>bypass\<close> is set, no \<open>power\<close> signal is emitted: over any finite
  sequence of \<open>process\<close> calls, with pending idle closures run at any points in
  between, the list of emitted \<open>power\<close> signals stays as it was, the number of
  pending closures never grows (no call queues one), and \<open>bypass\<close> stays set.
\<close>

theorem bypass_no_power:
  assumes "bypass st" "\<forall>e \<in> set evs. is_process_or_idle e"
    "run_events b ops nb evs st = Inr st'"
  shows "power_log st' = power_log st \<and> idle_queue st' \<le> idle_queue st \<and> bypass st'"
  using assms
proof (induction evs arbitrary: st)
  case Nil
  then show ?case by simp
next
  case (Cons e es)
  from Cons.prems(3) obtain s where
    step: "run_event b ops nb e st = Inr s" and rest: "run_events b ops nb es s = Inr st'"
    by (auto split: sum.splits)
  have keep: "bypass s \<and> power_log s = power_log st \<and> idle_queue s \<le> idle_queue st"
  proof (cases e)
    case (Process left_in right_in left_out right_out)
    with step obtain lo ro where
      "process b ops nb st left_in right_in left_out right_out = Inr (s, lo, ro)"
      by (auto split: sum.splits)
    from process_bypassed [OF Cons.prems(1) this] Cons.prems(1) show ?thesis by simp
  next
    case Idle
    with step run_idle_bypassed [OF Cons.prems(1), of ops nb] show ?thesis by auto
  next
    case (ShowChanged v)
    with Cons.prems(2) show ?thesis by simp
  next
    case Destroy
    with Cons.prems(2) show ?thesis by simp
  qed
  from Cons.prems(2) have "\<forall>e \<in> set es. is_process_or_idle e" by simp
  from Cons.IH [OF _ this rest] keep show ?case by simp
qed


theorem bypass_no_power_witness:
  "\<exists>st'. run_events Release exact_arith 4
            [Process [10, 20] [30, 40] [0, 0] [0, 0], Idle, Process [1] [2] [0] [0]]
            (st4\<lparr>bypass := True, idle_queue := 1\<rparr>) = Inr st'
         \<and> power_log st' = [] \<and> idle_queue st' \<le> 1 \<and> bypass st'"
proof -
  have run: "run_events Release exact_arith 4
            [Process [10, 20] [30, 40] [0, 0] [0, 0], Idle, Process [1] [2] [0] [0]]
            (st4\<lparr>bypass := True, idle_queue := 1\<rparr>) =
            Inr (st4\<lparr>bypass := True, idle_queue := 0\<rparr>)"
    by (simp add: process_def acquire_def release_def process_body_def copy_span_def
        run_idle_def idle_task_def st4_def)
  have "bypass (st4\<lparr>bypass := True, idle_queue := 1\<rparr>)" by simp
  moreover have "\<forall>e \<in> set [Process [10, 20] [30, 40] [0, 0] [0, 0], Idle,
                            Process [1] [2] [0] [0 :: real]]. is_process_or_idle e"
    by simp
  ultimately show ?thesis
    using bypass_no_power [OF _ _ run] run by (simp add: st4_def)
qed

subsection \<open>The settings callback\<close>

text \<open>
  Claim C8. When the key \<open>show\<close> changes and its new value is \<open>v\<close>, the callback
  takes the data mutex, sets \<open>bypass\<close> to the negation of \<open>v\<close> and releases the
  mutex, and changes nothing else of the analyzer. With the mutex free, the state
  after the callback is the state before with \<open>bypass\<close> replaced (the mutex is free
  again), and the write is applied to the state \<open>s\<close> in which the mutex is held.
  With the mutex held by someone else the callback does not get to the write: it
  cannot take the mutex, and \<open>bypass\<close> is not written without it.
\<close>

theorem show_changed_sets_bypass:
  assumes "settings ''show'' = v"
  shows "settings_changed settings ''show'' st =
           (if data_mutex st then Inl WouldBlock else Inr (st\<lparr>bypass := \<not> v\<rparr>))
         \<and> (\<not> data_mutex st \<longrightarrow>
               (\<exists>s. acquire st = Inr s \<and> data_mutex s
                  \<and> settings_changed settings ''show'' st = Inr (release (s\<lparr>bypass := \<not> v\<rparr>))))"
proof (cases "data_mutex st")
  case True
  then show ?thesis
    by (simp add: settings_changed_def on_show_changed_def acquire_def)
next
  case False
  have a: "acquire st = Inr (st\<lparr>data_mutex := True\<rparr>)"
    using False by (rule acquire_free)
  have b: "show_changed_body settings ''show'' (st\<lparr>data_mutex := True\<rparr>) =
             st\<lparr>data_mutex := True, bypass := \<not> v\<rparr>"
    using assms by (simp add: show_changed_body_def g_settings_get_boolean_def)
  have c: "release (st\<lparr>data_mutex := True, bypass := \<not> v\<rparr>) = st\<lparr>bypass := \<not> v\<rparr>"
    using False by (cases st) (simp add: release_def)
  have d: "settings_changed settings ''show'' st =
             Inr (release (st\<lparr>data_mutex := True, bypass := \<not> v\<rparr>))"
    by (simp add: settings_changed_def on_show_changed_def a b)
  from False a c d show ?thesis by simp
qed

theorem show_changed_sets_bypass_witness:
  "settings_changed (\<lambda>key. key = ''show'') ''show'' (st4\<lparr>bypass := True\<rparr>) = Inr st4
   \<and> settings_changed (\<lambda>key. False) ''show'' st4 = Inr (st4\<lparr>bypass := True\<rparr>)
   \<and> settings_changed (\<lambda>key. False) ''show'' (st4\<lparr>data_mutex := True\<rparr>) = Inl WouldBlock"
  using show_changed_sets_bypass [of "\<lambda>key. key = ''show''" True "st4\<lparr>bypass := True\<rparr>"]
    show_changed_sets_bypass [of "\<lambda>key. False" False st4]
    show_changed_sets_bypass [of "\<lambda>key. False" False "st4\<lparr>data_mutex := True\<rparr>"]
  by (simp add: st4_def)

subsection \<open>The emitted power spectrum\<close>

text \<open>
  Claim C5. When the idle closure runs on a live analyzer that is not bypassed, it
  executes the plan and emits one \<open>power\<close> signal with the rate, the number of points
  \<open>n_bands / 2 + 1\<close> and a spectrum of exactly that many values, and for every bin
  \<open>i < n_bands / 2 + 1\<close> the value is \<open>(re\<^sup>2 + im\<^sup>2) / (n_bands / 2 + 1)\<^sup>2\<close>, where
  \<open>(re, im)\<close> is bin \<open>i\<close> of the transform of \<open>real_input\<close>; squares, sum, quotient and
  the conversions to \<open>float\<close> and \<open>double\<close> are those of the arithmetic.
\<close>

theorem idle_task_power:
  assumes "live nb st" "\<not> bypass st" "0 < nb"
    "(nb div 2 + 1) * (nb div 2 + 1) < size_range"
  shows "\<exists>s out. idle_task ops nb st = Inr s
           \<and> power_log s = power_log st @ [(rate st, nb div 2 + 1, out)]
           \<and> length out = nb div 2 + 1
           \<and> (\<forall>i < nb div 2 + 1.
                 out ! i =
                   f_to_double ops
                     (f_div ops
                        (f_add ops
                           (f_mul ops (fst (r2c_bin ops (real_input st) i))
                                      (fst (r2c_bin ops (real_input st) i)))
                           (f_mul ops (snd (r2c_bin ops (real_input st) i))
                                      (snd (r2c_bin ops (real_input st) i))))
                        (f_of_size ops ((nb div 2 + 1) * (nb div 2 + 1)))))"
proof -
  let ?h = "nb div 2 + 1"
  from assms(1) obtain co where co: "complex_output st = Some co" "length co = nb"
    and lens: "length (real_input st) = nb" "length (output_vec st) = ?h" and pl: "plan st"
    by (auto simp: live_def split: option.splits)
  from assms(3) have h: "?h \<le> nb" by simp
  let ?co = "map (r2c_bin ops (take nb (real_input st))) [0 ..< ?h] @ drop ?h co"
  let ?s = "st\<lparr>complex_output := Some ?co\<rparr>"
  have ex: "fftwf_execute ops nb st = Inr ?s"
    using co lens pl h by (simp add: fftwf_execute_def)
  have lco: "length (output_vec st) \<le> length ?co" using lens co h by simp
  from power_loop_ok [OF lco, of 0 ops] obtain out where
    out: "power_loop ops 0 ?co (output_vec st) = Inr out" "length out = length (output_vec st)"
      "\<forall>j < length (output_vec st). out ! j =
              (if 0 \<le> j
               then f_to_double ops
                      (f_div ops
                         (f_add ops (f_mul ops (fst (?co ! j)) (fst (?co ! j)))
                                    (f_mul ops (snd (?co ! j)) (snd (?co ! j))))
                         (f_of_size ops (size_mul (length (output_vec st)) (length (output_vec st)))))
               else output_vec st ! j)"
    by auto
  have sm: "size_mul ?h ?h = ?h * ?h"
    using assms(4) by (simp add: size_mul_def)
  have bins: "\<forall>i < ?h. ?co ! i = r2c_bin ops (real_input st) i"
  proof (intro allI impI)
    fix i assume "i < ?h"
    then have "?co ! i = map (r2c_bin ops (take nb (real_input st))) [0 ..< ?h] ! i"
      by (simp add: nth_append del: upt_Suc)
    also have "\<dots> = r2c_bin ops (take nb (real_input st)) i"
      using \<open>i < ?h\<close> by (simp del: upt_Suc)
    finally show "?co ! i = r2c_bin ops (real_input st) i" using lens by simp
  qed
  have run: "idle_task ops nb st =
      Inr (st\<lparr>complex_output := Some ?co, output_vec := out,
              power_log := power_log st @ [(rate st, length out, out)]\<rparr>)"
    using assms(2) ex out(1) by (simp add: idle_task_def)
  have vals: "\<forall>i < ?h. out ! i =
                   f_to_double ops
                     (f_div ops
                        (f_add ops
                           (f_mul ops (fst (r2c_bin ops (real_input st) i))
                                      (fst (r2c_bin ops (real_input st) i)))
                           (f_mul ops (snd (r2c_bin ops (real_input st) i))
                                      (snd (r2c_bin ops (real_input st) i))))
                        (f_of_size ops (?h * ?h)))"
  proof (intro allI impI)
    fix i assume i: "i < ?h"
    with out(3) lens(2) have "out ! i = f_to_double ops
                      (f_div ops
                         (f_add ops (f_mul ops (fst (?co ! i)) (fst (?co ! i)))
                                    (f_mul ops (snd (?co ! i)) (snd (?co ! i))))
                         (f_of_size ops (size_mul ?h ?h)))"
      by simp
    also from bins i have "?co ! i = r2c_bin ops (real_input st) i" by blast
    finally show "out ! i =
                   f_to_double ops
                     (f_div ops
                        (f_add ops
                           (f_mul ops (fst (r2c_bin ops (real_input st) i))
                                      (fst (r2c_bin ops (real_input st) i)))
                           (f_mul ops (snd (r2c_bin ops (real_input st) i))
                                      (snd (r2c_bin ops (real_input st) i))))
                        (f_of_size ops (?h * ?h)))"
      unfolding sm .
  qed
  show ?thesis using run out(2) lens(2) vals by simp
qed


theorem idle_task_power_witness:
  "\<exists>s out. idle_task exact_arith 4 (st4\<lparr>real_input := [0, 3, 15, 0]\<rparr>) = Inr s
      \<and> power_log s = [(48000, 3, out)] \<and> length out = 3
      \<and> out ! 0 = 36 \<and> out ! 1 = 325 / 9 \<and> out ! 2 = 328 / 9"
proof -
  let ?st = "st4\<lparr>real_input := [0, 3, 15, 0]\<rparr>"
  have "live 4 ?st" "\<not> bypass ?st" "(0::nat) < 4" "(4 div 2 + 1) * (4 div 2 + 1) < size_range"
    by (simp_all add: live_def st4_def size_range_def)
  from idle_task_power [OF this, of exact_arith]
  obtain s out where
    run: "idle_task exact_arith 4 ?st = Inr s"
    and log: "power_log s = power_log ?st @ [(rate ?st, 4 div 2 + 1, out)]"
    and len: "length out = 4 div 2 + 1"
    and vals: "\<forall>i < 4 div 2 + 1.
                 out ! i =
                   f_to_double exact_arith
                     (f_div exact_arith
                        (f_add exact_arith
                           (f_mul exact_arith (fst (r2c_bin exact_arith (real_input ?st) i))
                                      (fst (r2c_bin exact_arith (real_input ?st) i)))
                           (f_mul exact_arith (snd (r2c_bin exact_arith (real_input ?st) i))
                                      (snd (r2c_bin exact_arith (real_input ?st) i))))
                        (f_of_size exact_arith ((4 div 2 + 1) * (4 div 2 + 1))))"
    by blast
  have "out ! 0 = 36" using vals [rule_format, of 0] by (simp add: exact_arith_def st4_def)
  moreover have "out ! 1 = 325 / 9"
    using vals [rule_format, of 1] by (simp add: exact_arith_def st4_def)
  moreover have "out ! 2 = 328 / 9"
    using vals [rule_format, of 2] by (simp add: exact_arith_def st4_def)
  moreover have "power_log s = [(48000, 3, out)]" using log by (simp add: st4_def)
  moreover have "length out = 3" using len by simp
  ultimately show ?thesis using run by blast
qed

subsection \<open>Input longer than the buffer\<close>

lemma shift_loop_overrun:
  assumes "0 < bound" "k < size_range" "length buf \<le> k"
  shows "shift_loop bound k 0 buf = Inl OutOfBounds"
proof -
  have "size_add k 0 = k" using assms(2) by (simp add: size_add_def)
  with assms(1,3) show ?thesis by (subst shift_loop.simps) simp
qed

lemma process_release_oversize:
  assumes "nb < length left_in" "length left_in < size_range"
    "\<not> bypass st" "fftw_ready st" "\<not> data_mutex st" "length (in_mono st) = nb"
    "length left_in \<le> length left_out" "length right_in \<le> length right_out"
  shows "process Release ops nb st left_in right_in left_out right_out = Inl OutOfBounds"
proof -
  let ?s = "st\<lparr>data_mutex := True\<rparr>"
  have "0 < size_sub nb (length left_in)"
    using assms(1,2) by (rule size_sub_gt)
  then have "shift_loop (size_sub nb (length left_in)) (length left_in) 0 (in_mono ?s) =
               Inl OutOfBounds"
    using assms(1,2,6) by (intro shift_loop_overrun) simp_all
  then have "process_body Release ops nb ?s left_in right_in left_out right_out = Inl OutOfBounds"
    using assms(3,4,7,8) by (simp add: process_body_def copy_span_ok)
  then show ?thesis using assms(5) by (simp add: process_def acquire_free)
qed

lemma process_debug_oversize:
  assumes "nb < length left_in" "\<not> bypass st" "fftw_ready st" "\<not> data_mutex st"
    "length left_in \<le> length left_out" "length right_in \<le> length right_out"
  shows "process Debug ops nb st left_in right_in left_out right_out = Inl AssertionFailed"
proof -
  let ?s = "st\<lparr>data_mutex := True\<rparr>"
  have "\<not> asserts_hold nb ?s left_in right_in"
    using assms(1) by (simp add: asserts_hold_def)
  then have "process_body Debug ops nb ?s left_in right_in left_out right_out =
               Inl AssertionFailed"
    using assms(2,3,5,6) by (simp add: process_body_def copy_span_ok)
  then show ?thesis using assms(4) by (simp add: process_def acquire_free)
qed

text \<open>
  Claim C1, as amended. Let a \<open>process\<close> call have more input samples than \<open>n_bands\<close>,
  on an analyzer whose mono buffer has \<open>n_bands\<close> elements, with output spans as long
  as the inputs. If \<open>bypass\<close> is set or \<open>fftw_ready\<close> is false, both builds return after
  the pass-through copy with the state unchanged; the assertions are not reached.
  Otherwise the debug build aborts at its assertions, and the release build does not
  clamp: \<open>n_bands - n_new_samples\<close> wraps around, the shift loop is entered and its
  first iteration reads \<open>in_mono\<close> at index \<open>n_new_samples\<close>, past the end of the
  buffer, where the model stops with \<open>OutOfBounds\<close>.
\<close>

theorem oversize_chunk:
  assumes "nb < length left_in" "length left_in < size_range"
    "\<not> data_mutex st" "length (in_mono st) = nb"
    "length left_in \<le> length left_out" "length right_in \<le> length right_out"
  shows "process Debug ops nb st left_in right_in left_out right_out =
           (if bypass st \<or> \<not> fftw_ready st
            then Inr (st, left_in @ drop (length left_in) left_out,
                          right_in @ drop (length right_in) right_out)
            else Inl AssertionFailed)
       \<and> process Release ops nb st left_in right_in left_out right_out =
           (if bypass st \<or> \<not> fftw_ready st
            then Inr (st, left_in @ drop (length left_in) left_out,
                          right_in @ drop (length right_in) right_out)
            else Inl OutOfBounds)"
proof (cases "bypass st \<or> \<not> fftw_ready st")
  case True
  from process_early [OF True assms(3,5,6)] True show ?thesis by simp
next
  case False
  then have run: "\<not> bypass st" "fftw_ready st" by simp_all
  from process_debug_oversize [OF assms(1) run assms(3,5,6)]
    process_release_oversize [OF assms(1,2) run assms(3,4,5,6)] False
  show ?thesis by simp
qed

theorem oversize_chunk_witness:
  "process Debug exact_arith 4 st4 [1, 2, 3, 4, 5] [1, 2, 3, 4, 5] [0, 0, 0, 0, 0] [0, 0, 0, 0, 0]
     = Inl AssertionFailed
   \<and> process Release exact_arith 4 st4 [1, 2, 3, 4, 5] [1, 2, 3, 4, 5] [0, 0, 0, 0, 0] [0, 0, 0, 0, 0]
     = Inl OutOfBounds"
  using oversize_chunk [of 4 "[1, 2, 3, 4, 5 :: real]" st4 "[0, 0, 0, 0, 0]" "[1, 2, 3, 4, 5]"
      "[0, 0, 0, 0, 0]" exact_arith]
  by (simp add: st4_def size_range_def)

text \<open>
  The claim as stated fails on the scenario of the spec: 9000 samples for the 8192
  bands of a freshly constructed analyzer. The release build does not process 8192
  of them; it leaves the buffer at the first iteration of the shift loop. And with
  \<open>bypass\<close> set, the debug build does not abort.
\<close>

theorem oversize_chunk_counterexample:
  "process Release exact_arith 8192 st8192
     (replicate 9000 1) (replicate 9000 1) (replicate 9000 0) (replicate 9000 0)
     = Inl OutOfBounds
   \<and> process Debug exact_arith 8192 (st8192\<lparr>bypass := True\<rparr>)
     (replicate 9000 1) (replicate 9000 1) (replicate 9000 0) (replicate 9000 0)
     = Inr (st8192\<lparr>bypass := True\<rparr>, replicate 9000 1, replicate 9000 1)"
proof -
  have st: "\<not> bypass st8192" "fftw_ready st8192" "\<not> data_mutex st8192"
    "length (in_mono st8192) = 8192"
    by (simp_all add: st8192_def Spectrum_new_def n_bands_hardcoded_def)
  have "process Release exact_arith 8192 st8192
     (replicate 9000 1) (replicate 9000 1) (replicate 9000 0) (replicate 9000 0)
     = Inl OutOfBounds"
    using st by (intro process_release_oversize) (simp_all add: size_range_def)
  moreover have "process Debug exact_arith 8192 (st8192\<lparr>bypass := True\<rparr>)
     (replicate 9000 1) (replicate 9000 1) (replicate 9000 0) (replicate 9000 0)
     = Inr (st8192\<lparr>bypass := True\<rparr>, replicate 9000 1 @ drop (length (replicate 9000 (1::real))) (replicate 9000 0),
            replicate 9000 1 @ drop (length (replicate 9000 (1::real))) (replicate 9000 0))"
    using st by (intro process_early) simp_all
  ultimately show ?thesis by simp
qed

subsection \<open>A closure that runs after the destructor\<close>

lemma destroy_live:
  assumes "live nb st"
  shows "destroy st = Inr (st\<lparr>fftw_ready := False, complex_output := None, plan := False\<rparr>)"
  using assms by (cases st) (simp add: destroy_def acquire_def release_def live_def)

text \<open>
  Claim C2 says that an idle closure that runs after the destructor has cleared
  \<open>fftw_ready\<close> sees the flag false and returns without executing the plan. The
  closure does not read \<open>fftw_ready\<close>: it tests \<open>bypass\<close> only, and takes no mutex.
  On a live analyzer that is not bypassed and has a closure pending, the destructor
  clears \<open>fftw_ready\<close>, and the closure run after it goes on to \<open>fftwf_execute\<close> with
  the plan destroyed and \<open>complex_output\<close> freed.
\<close>

theorem idle_task_after_destroy:
  assumes "live nb st" "\<not> bypass st" "0 < idle_queue st"
  shows "(\<exists>s. destroy st = Inr s \<and> \<not> fftw_ready s \<and> complex_output s = None)
         \<and> run_events b ops nb [Destroy, Idle] st = Inl UseAfterFree"
  using assms(2,3) destroy_live [OF assms(1)]
  by (simp add: run_idle_def idle_task_def fftwf_execute_def)

theorem idle_task_after_destroy_witness:
  "run_events Release exact_arith 4 [Process [10, 20] [30, 40] [0, 0] [0, 0], Destroy, Idle] st4
     = Inl UseAfterFree"
proof -
  let ?s = "st4\<lparr>in_mono := [3, 4, 20, 30], real_input := [0, 3, 15, 0], idle_queue := 1\<rparr>"
  have "live 4 ?s" "\<not> bypass ?s" "0 < idle_queue ?s"
    using live_st4 by (simp_all add: live_def st4_def)
  from idle_task_after_destroy [OF this, of Release exact_arith]
  have "run_events Release exact_arith 4 [Destroy, Idle] ?s = Inl UseAfterFree" by simp
  then show ?thesis by (simp add: st4_process)
qed

end
